theory Spec2Isabelle
  imports Main
begin

section \<open>Python string primitives used by \<open>fs/wildcard.py\<close>\<close>

text \<open>
  Strings are lists of characters. A character of the model is one of the 256 code points
  of Latin-1, so \<open>length\<close> counts code points like Python's \<open>len\<close> on that alphabet.
\<close>

datatype error = ValueError string | IndexError | RecursionError

text \<open>The position of the first occurrence of a character, counted from the head.\<close>

fun index_of :: "char \<Rightarrow> string \<Rightarrow> nat option" where
  "index_of c [] = None"
| "index_of c (x # xs) = (if x = c then Some 0 else map_option Suc (index_of c xs))"

text \<open>\<open>s.find(c, start)\<close>: the lowest index at or after \<open>start\<close> holding \<open>c\<close>, or \<open>-1\<close>.\<close>

definition str_find :: "string \<Rightarrow> char \<Rightarrow> nat \<Rightarrow> int" where
  "str_find s c start =
     (case index_of c (drop start s) of None \<Rightarrow> - 1 | Some k \<Rightarrow> int (start + k))"

text \<open>\<open>s[a:b]\<close> for non-negative \<open>a\<close> and \<open>b\<close>; empty when \<open>b \<le> a\<close>.\<close>

definition str_slice :: "string \<Rightarrow> nat \<Rightarrow> nat \<Rightarrow> string" where
  "str_slice s a b = drop a (take b s)"

text \<open>\<open>c.lower()\<close> on Latin-1: the letters A-Z and the accented capitals move by 32.\<close>

definition lower_char :: "char \<Rightarrow> char" where
  "lower_char c =
     (let n = (of_char c :: nat)
      in if (65 \<le> n \<and> n \<le> 90) \<or> (192 \<le> n \<and> n \<le> 222 \<and> n \<noteq> 215)
         then char_of (n + 32) else c)"

definition str_lower :: "string \<Rightarrow> string" where
  "str_lower s = map lower_char s"

section \<open>Tokens: \<open>_PatternMatcherToken\<close>\<close>

datatype PatternMatcherToken = PatternMatcherToken (token_str: string)

text \<open>
  \<open>_PatternMatcherToken.match\<close> returns 0 (no match), 1 (one character) or 2 (open-ended).
  Reading \<open>token_str[0]\<close> of an empty token, or \<open>token_str[1]\<close> of the token \<open>[\<close>, raises
  IndexError.
\<close>

definition token_match :: "PatternMatcherToken \<Rightarrow> char \<Rightarrow> bool \<Rightarrow> error + nat" where
  "token_match self character case_sensitive =
     (case token_str self of
        [] \<Rightarrow> Inl IndexError
      | c0 # rest \<Rightarrow>
          if c0 = CHR ''['' then
            (case rest of
               [] \<Rightarrow> Inl IndexError
             | c1 # _ \<Rightarrow>
                 if c1 = CHR ''!'' then
                   (let matches = drop 2 (butlast (token_str self))
                    in Inr (if character \<in> set matches then 0 else 1))
                 else
                   (let matches = drop 1 (butlast (token_str self))
                    in Inr (if character \<in> set matches then 1 else 0)))
          else if token_str self = ''?'' then Inr 1
          else if token_str self = ''*'' then Inr (if character \<noteq> CHR ''/'' then 2 else 0)
          else if token_str self = ''**'' then Inr 2
          else if case_sensitive then Inr (if token_str self = [character] then 1 else 0)
          else Inr (if str_lower (token_str self) = str_lower [character] then 1 else 0))"

section \<open>The compiled matcher: \<open>PatternMatcher\<close>\<close>

record PatternMatcher =
  case_sensitive :: bool
  accept_prefixes :: bool
  tokens :: "PatternMatcherToken list"

text \<open>The inner loop of \<open>__init__\<close> that measures a run of asterisks starting at \<open>i\<close>.\<close>

function count_asterik :: "string \<Rightarrow> nat \<Rightarrow> nat \<Rightarrow> nat" where
  "count_asterik pattern i asterik_len =
     (if asterik_len + i < length pattern \<and> pattern ! (asterik_len + i) = CHR ''*''
      then count_asterik pattern i (asterik_len + 1)
      else asterik_len)"
  by pat_completeness auto
termination
  by (relation "measure (\<lambda>(pattern, i, asterik_len). length pattern - (asterik_len + i))") auto

declare count_asterik.simps [simp del]

text \<open>
  The outer loop of \<open>__init__\<close>, on the cursor \<open>i\<close> and the tokens collected so far. When
  \<open>find\<close> returns \<open>-1\<close> the cursor becomes 0 and the slice \<open>pattern[start:0]\<close> is empty, so
  the loop may not end: not returning is the value \<open>None\<close>.
\<close>

partial_function (option) PatternMatcher_init_loop ::
  "string \<Rightarrow> nat \<Rightarrow> PatternMatcherToken list \<Rightarrow> (error + PatternMatcherToken list) option" where
  "PatternMatcher_init_loop pattern i toks =
     (if i < length pattern then
        (if pattern ! i = CHR ''['' then
           (let start = i;
                i' = nat (str_find pattern CHR '']'' i + 1)
            in PatternMatcher_init_loop pattern i'
                 (toks @ [PatternMatcherToken (str_slice pattern start i')]))
         else if pattern ! i = CHR '']'' then
           Some (Inl (ValueError (pattern @ '' is not a valid wildcard pattern. (unmatched ])'')))
         else if pattern ! i = CHR ''?'' then
           PatternMatcher_init_loop pattern (i + 1) (toks @ [PatternMatcherToken ''?''])
         else if pattern ! i = CHR ''*'' then
           (let asterik_len = count_asterik pattern i 1
            in if asterik_len > 2 then
                 Some (Inl (ValueError
                   (pattern @ '' is not a valid wildcard pattern. (sequence of three or more *)'')))
               else PatternMatcher_init_loop pattern (i + asterik_len)
                      (toks @ [PatternMatcherToken (replicate asterik_len CHR ''*'')]))
         else PatternMatcher_init_loop pattern (i + 1) (toks @ [PatternMatcherToken [pattern ! i]]))
      else Some (Inr toks))"

declare PatternMatcher_init_loop.simps [code]

definition PatternMatcher_init ::
  "string \<Rightarrow> bool \<Rightarrow> bool \<Rightarrow> (error + PatternMatcher) option" where
  "PatternMatcher_init pattern cs ap =
     (case PatternMatcher_init_loop pattern 0 [] of
        None \<Rightarrow> None
      | Some (Inl e) \<Rightarrow> Some (Inl e)
      | Some (Inr toks) \<Rightarrow>
          Some (Inr \<lparr>case_sensitive = cs, accept_prefixes = ap, tokens = toks\<rparr>))"

text \<open>
  The interpreter bounds the depth of the call stack (\<open>sys.getrecursionlimit()\<close>, 1000
  unless it is changed), and a call made when no frame is free raises \<open>RecursionError\<close>.
  \<open>_match\<close> calls itself once for every character of the text that it consumes, so the
  depth it needs grows with the text. The functions on that call chain take the number of
  frames that are free where they are called, \<open>frames\<close>: a call uses one frame for as long
  as it runs. The constructor and the cache operations nest to a depth that does not depend
  on their arguments and are taken to have room.

  \<open>PatternMatcher._match\<close>. Python's \<open>a or b\<close> evaluates \<open>b\<close> only when \<open>a\<close> is false, and
  an exception in \<open>a\<close> leaves the whole expression. With no frame free the call of
  \<open>_match\<close> itself raises; with one free frame the activation runs and its call of the
  token's \<open>match\<close> raises.
\<close>

fun PatternMatcher_match ::
  "PatternMatcher \<Rightarrow> nat \<Rightarrow> PatternMatcherToken list \<Rightarrow> string \<Rightarrow> error + bool" where
  "PatternMatcher_match self 0 toks text = Inl RecursionError"
| "PatternMatcher_match self (Suc frames) [] text = Inr (text = [])"
| "PatternMatcher_match self (Suc frames) (t # ts) [] = Inr (accept_prefixes self)"
| "PatternMatcher_match self (Suc frames) (t # ts) (c # cs) =
     (if frames = 0 then Inl RecursionError
      else case token_match t c (case_sensitive self) of
        Inl e \<Rightarrow> Inl e
      | Inr match_count \<Rightarrow>
          if match_count = 0 then Inr False
          else if match_count = 1 then PatternMatcher_match self frames ts cs
          else (case PatternMatcher_match self frames ts cs of
                  Inl e \<Rightarrow> Inl e
                | Inr b \<Rightarrow>
                    if b then Inr True else PatternMatcher_match self frames (t # ts) cs))"

text \<open>\<open>PatternMatcher.__call__\<close>: one frame for the call itself, the rest for \<open>_match\<close>.\<close>

definition PatternMatcher_call :: "PatternMatcher \<Rightarrow> nat \<Rightarrow> string \<Rightarrow> error + bool" where
  "PatternMatcher_call self frames text =
     (case frames of
        0 \<Rightarrow> Inl RecursionError
      | Suc free \<Rightarrow> PatternMatcher_match self free (tokens self) text)"

section \<open>The cache of compiled patterns\<close>

type_synonym cache_key = "string \<times> bool \<times> bool"

text \<open>
  Modelled from the spec: the class \<open>LRUCache\<close> of \<open>fs/lrucache.py\<close> is not among the
  sources. The spec describes a bounded key-value store, ordered by recency of access: a
  read that hits promotes the entry to most recently used, a read that misses fails and
  changes nothing, a write inserts the entry as most recently used and, if the store now
  exceeds its capacity, evicts the least recently used one. The entries are kept with the
  least recently used first.
\<close>

record LRUCache =
  cache_size :: nat
  entries :: "(cache_key \<times> PatternMatcher) list"

definition LRUCache_getitem :: "LRUCache \<Rightarrow> cache_key \<Rightarrow> (PatternMatcher \<times> LRUCache) option" where
  "LRUCache_getitem c k =
     (case map_of (entries c) k of
        None \<Rightarrow> None
      | Some v \<Rightarrow> Some (v, c\<lparr>entries := filter (\<lambda>e. fst e \<noteq> k) (entries c) @ [(k, v)]\<rparr>))"

definition LRUCache_setitem :: "LRUCache \<Rightarrow> cache_key \<Rightarrow> PatternMatcher \<Rightarrow> LRUCache" where
  "LRUCache_setitem c k v =
     (let es = filter (\<lambda>e. fst e \<noteq> k) (entries c) @ [(k, v)]
      in c\<lparr>entries := (if length es > cache_size c then tl es else es)\<rparr>)"

text \<open>\<open>_PATTERN_CACHE = LRUCache(1000)\<close>, the state of the module when it is loaded.\<close>

definition PATTERN_CACHE :: LRUCache where
  "PATTERN_CACHE = \<lparr>cache_size = 1000, entries = []\<rparr>"

section \<open>The query functions \<open>match\<close> and \<open>imatch\<close>\<close>

text \<open>
  Both take the cache as it is before the call and the number of frames that are free in
  their body, and return the outcome with the cache as it is after the call. An exception
  of the constructor leaves before the cache is written.
\<close>

definition match ::
  "LRUCache \<Rightarrow> nat \<Rightarrow> string \<Rightarrow> string \<Rightarrow> bool \<Rightarrow> ((error + bool) \<times> LRUCache) option" where
  "match cache frames pattern name accept_prefix =
     (let args = (pattern, True, accept_prefix)
      in case LRUCache_getitem cache args of
           Some (pat, cache') \<Rightarrow> Some (PatternMatcher_call pat frames name, cache')
         | None \<Rightarrow>
             (case PatternMatcher_init pattern True accept_prefix of
                None \<Rightarrow> None
              | Some (Inl e) \<Rightarrow> Some (Inl e, cache)
              | Some (Inr pat) \<Rightarrow>
                  Some (PatternMatcher_call pat frames name, LRUCache_setitem cache args pat)))"

definition imatch ::
  "LRUCache \<Rightarrow> nat \<Rightarrow> string \<Rightarrow> string \<Rightarrow> bool \<Rightarrow> ((error + bool) \<times> LRUCache) option" where
  "imatch cache frames pattern name accept_prefix =
     (let args = (pattern, False, accept_prefix)
      in case LRUCache_getitem cache args of
           Some (pat, cache') \<Rightarrow> Some (PatternMatcher_call pat frames name, cache')
         | None \<Rightarrow>
             (case PatternMatcher_init pattern False accept_prefix of
                None \<Rightarrow> None
              | Some (Inl e) \<Rightarrow> Some (Inl e, cache)
              | Some (Inr pat) \<Rightarrow>
                  Some (PatternMatcher_call pat frames name, LRUCache_setitem cache args pat)))"

section \<open>Predicates used to state the properties\<close>

text \<open>
  A token that \<open>_PatternMatcherToken.match\<close> can read: it is not empty, and a token that
  opens a class has a second character.
\<close>

definition wf_token :: "PatternMatcherToken \<Rightarrow> bool" where
  "wf_token t = (case token_str t of [] \<Rightarrow> False | c0 # rest \<Rightarrow> c0 \<noteq> CHR ''['' \<or> rest \<noteq> [])"


text \<open>
  The invariant of the cache under \<open>match\<close> and \<open>imatch\<close>: every entry holds the matcher
  that the constructor builds from the entry's key.
\<close>

definition cache_ok :: "LRUCache \<Rightarrow> bool" where
  "cache_ok c =
     (\<forall>e \<in> set (entries c).
        PatternMatcher_init (fst (fst e)) (fst (snd (fst e))) (snd (snd (fst e))) = Some (Inr (snd e)))"

text \<open>
  The malformed patterns in the words of the specification, read from left to right: a
  \<open>]\<close> that does not close a class opened before it, or three or more \<open>*\<close> in a row outside
  a class. A \<open>[\<close> takes everything up to the next \<open>]\<close>, or up to the end of the pattern when
  no \<open>]\<close> follows.
\<close>

function invalid_pattern :: "string \<Rightarrow> bool" where
  "invalid_pattern [] = False"
| "invalid_pattern (c # rest) =
     (if c = CHR ''['' then
        (case index_of CHR '']'' rest of
           None \<Rightarrow> False
         | Some k \<Rightarrow> invalid_pattern (drop (Suc k) rest))
      else if c = CHR '']'' then True
      else if c = CHR ''*'' then
        (if 2 \<le> length (takeWhile (\<lambda>x. x = CHR ''*'') rest) then True
         else invalid_pattern (dropWhile (\<lambda>x. x = CHR ''*'') rest))
      else invalid_pattern rest)"
  by pat_completeness auto
termination
  by (relation "measure length") (auto simp: length_dropWhile_le less_Suc_eq_le)

section \<open>The steps of the tokenizer loop\<close>

lemma index_of_None: "index_of c xs = None \<longleftrightarrow> c \<notin> set xs"
  by (induction xs) auto

lemma index_of_Some:
  "index_of c xs = Some k \<Longrightarrow> k < length xs \<and> xs ! k = c \<and> c \<notin> set (take k xs)"
proof (induction xs arbitrary: k)
  case Nil
  then show ?case by simp
next
  case (Cons x xs)
  show ?case
  proof (cases "x = c")
    case True
    with Cons.prems show ?thesis by simp
  next
    case False
    with Cons.prems obtain j where j: "index_of c xs = Some j" "k = Suc j"
      by auto
    from Cons.IH [OF j(1)] False j(2) show ?thesis by simp
  qed
qed

lemma str_find_open:
  assumes "i < length p" and "p ! i \<noteq> c"
  shows "str_find p c i =
           (case index_of c (drop (Suc i) p) of None \<Rightarrow> - 1 | Some k \<Rightarrow> int (Suc i + k))"
proof -
  from assms(1) have "drop i p = p ! i # drop (Suc i) p"
    by (simp add: Cons_nth_drop_Suc)
  with assms(2) show ?thesis
    by (simp add: str_find_def split: option.split)
qed

lemma count_asterik_run:
  "asterik_len + i \<le> length p \<Longrightarrow>
   count_asterik p i asterik_len =
     asterik_len + length (takeWhile (\<lambda>x. x = CHR ''*'') (drop (asterik_len + i) p))"
proof (induction p i asterik_len rule: count_asterik.induct)
  case (1 pattern i asterik_len)
  show ?case
  proof (cases "asterik_len + i < length pattern")
    case False
    then show ?thesis by (simp add: count_asterik.simps)
  next
    case True
    then have d: "drop (asterik_len + i) pattern =
        pattern ! (asterik_len + i) # drop (Suc (asterik_len + i)) pattern"
      by (simp add: Cons_nth_drop_Suc)
    show ?thesis
    proof (cases "pattern ! (asterik_len + i) = CHR ''*''")
      case False
      with True d show ?thesis by (simp add: count_asterik.simps)
    next
      case star: True
      from True star have "count_asterik pattern i asterik_len =
          count_asterik pattern i (asterik_len + 1)"
        by (subst count_asterik.simps) simp
      also from True star have "\<dots> = asterik_len + 1 +
          length (takeWhile (\<lambda>x. x = CHR ''*'') (drop (asterik_len + 1 + i) pattern))"
        using "1.IH" by simp
      finally show ?thesis using d star by simp
    qed
  qed
qed

text \<open>What \<open>find\<close>, the slice and the inner loop compute in the bracket and star branches.\<close>

lemma class_closed_facts:
  assumes "i < length p" and "p ! i = CHR ''[''"
    and "index_of CHR '']'' (drop (Suc i) p) = Some k"
  shows "nat (str_find p CHR '']'' i + 1) = i + k + 2"
    and "str_slice p i (i + k + 2) = CHR ''['' # take k (drop (Suc i) p) @ '']''"
proof -
  from assms have f: "str_find p CHR '']'' i = int (Suc i + k)"
    by (simp add: str_find_open)
  then show "nat (str_find p CHR '']'' i + 1) = i + k + 2"
    by simp
  from index_of_Some [OF assms(3)] have k: "k < length p - Suc i" "drop (Suc i) p ! k = CHR '']''"
    by simp_all
  have d: "drop i p = CHR ''['' # drop (Suc i) p"
    using Cons_nth_drop_Suc [OF assms(1)] assms(2) by simp
  have "str_slice p i (i + k + 2) = take (k + 2) (drop i p)"
    by (simp add: str_slice_def drop_take add.commute)
  also have "\<dots> = CHR ''['' # take (Suc k) (drop (Suc i) p)"
    by (simp add: d)
  also have "take (Suc k) (drop (Suc i) p) = take k (drop (Suc i) p) @ '']''"
    using k by (simp add: take_Suc_conv_app_nth)
  finally show "str_slice p i (i + k + 2) = CHR ''['' # take k (drop (Suc i) p) @ '']''" .
qed

lemma class_open_facts:
  assumes "i < length p" and "p ! i = CHR ''[''"
    and "index_of CHR '']'' (drop (Suc i) p) = None"
  shows "nat (str_find p CHR '']'' i + 1) = 0"
  using assms by (simp add: str_find_open)

lemma stars_facts:
  assumes "i < length p"
  shows "count_asterik p i (Suc 0) =
      Suc (length (takeWhile (\<lambda>x. x = CHR ''*'') (drop (Suc i) p)))"
proof -
  from assms have "count_asterik p i 1 =
      1 + length (takeWhile (\<lambda>x. x = CHR ''*'') (drop (1 + i) p))"
    by (intro count_asterik_run) simp
  then show ?thesis by simp
qed

text \<open>One step of the loop, case by case.\<close>

lemma loop_done: "length p \<le> i \<Longrightarrow> PatternMatcher_init_loop p i ts = Some (Inr ts)"
  by (subst PatternMatcher_init_loop.simps) simp

lemma loop_unmatched:
  "i < length p \<Longrightarrow> p ! i = CHR '']'' \<Longrightarrow>
   PatternMatcher_init_loop p i ts =
     Some (Inl (ValueError (p @ '' is not a valid wildcard pattern. (unmatched ])'')))"
  by (subst PatternMatcher_init_loop.simps) simp

lemma loop_question:
  "i < length p \<Longrightarrow> p ! i = CHR ''?'' \<Longrightarrow>
   PatternMatcher_init_loop p i ts =
     PatternMatcher_init_loop p (Suc i) (ts @ [PatternMatcherToken ''?''])"
  by (subst PatternMatcher_init_loop.simps) simp

lemma loop_literal:
  "i < length p \<Longrightarrow> p ! i \<noteq> CHR ''['' \<Longrightarrow> p ! i \<noteq> CHR '']'' \<Longrightarrow> p ! i \<noteq> CHR ''?'' \<Longrightarrow>
   p ! i \<noteq> CHR ''*'' \<Longrightarrow>
   PatternMatcher_init_loop p i ts =
     PatternMatcher_init_loop p (Suc i) (ts @ [PatternMatcherToken [p ! i]])"
  by (subst PatternMatcher_init_loop.simps) simp

lemma loop_class_closed:
  assumes "i < length p" and "p ! i = CHR ''[''"
    and "index_of CHR '']'' (drop (Suc i) p) = Some k"
  shows "PatternMatcher_init_loop p i ts =
     PatternMatcher_init_loop p (i + k + 2)
       (ts @ [PatternMatcherToken (CHR ''['' # take k (drop (Suc i) p) @ '']'')])"
  by (subst PatternMatcher_init_loop.simps)
    (simp only: assms(1,2) if_True Let_def class_closed_facts [OF assms] simp_thms)

lemma loop_class_open:
  assumes "i < length p" and "p ! i = CHR ''[''"
    and "index_of CHR '']'' (drop (Suc i) p) = None"
  shows "PatternMatcher_init_loop p i ts =
     PatternMatcher_init_loop p 0 (ts @ [PatternMatcherToken []])"
  by (subst PatternMatcher_init_loop.simps)
    (simp add: assms(1,2) class_open_facts [OF assms] str_slice_def)

lemma loop_stars:
  assumes "i < length p" and "p ! i = CHR ''*''"
  shows "PatternMatcher_init_loop p i ts =
     (let n = Suc (length (takeWhile (\<lambda>x. x = CHR ''*'') (drop (Suc i) p)))
      in if 2 < n then
           Some (Inl (ValueError
             (p @ '' is not a valid wildcard pattern. (sequence of three or more *)'')))
         else PatternMatcher_init_loop p (i + n) (ts @ [PatternMatcherToken (replicate n CHR ''*'')]))"
  by (subst PatternMatcher_init_loop.simps) (simp add: assms stars_facts [OF assms(1)] Let_def)

text \<open>
  Induction over a run of the loop that returns: one case for each branch of the loop
  body, with the returning run of the next iteration at hand.
\<close>

lemma loop_run_induct [consumes 1, case_names finished unmatched question literal closed opened
    stars_error stars]:
  assumes run: "PatternMatcher_init_loop p i ts = Some y"
    and c_done: "\<And>i ts. length p \<le> i \<Longrightarrow> P i ts (Inr ts)"
    and c_unmatched: "\<And>i ts. i < length p \<Longrightarrow> p ! i = CHR '']'' \<Longrightarrow>
       P i ts (Inl (ValueError (p @ '' is not a valid wildcard pattern. (unmatched ])'')))"
    and c_question: "\<And>i ts y. i < length p \<Longrightarrow> p ! i = CHR ''?'' \<Longrightarrow>
       PatternMatcher_init_loop p (Suc i) (ts @ [PatternMatcherToken ''?'']) = Some y \<Longrightarrow>
       P (Suc i) (ts @ [PatternMatcherToken ''?'']) y \<Longrightarrow> P i ts y"
    and c_literal: "\<And>i ts y. i < length p \<Longrightarrow> p ! i \<noteq> CHR ''['' \<Longrightarrow> p ! i \<noteq> CHR '']'' \<Longrightarrow>
       p ! i \<noteq> CHR ''?'' \<Longrightarrow> p ! i \<noteq> CHR ''*'' \<Longrightarrow>
       PatternMatcher_init_loop p (Suc i) (ts @ [PatternMatcherToken [p ! i]]) = Some y \<Longrightarrow>
       P (Suc i) (ts @ [PatternMatcherToken [p ! i]]) y \<Longrightarrow> P i ts y"
    and c_closed: "\<And>i ts k y. i < length p \<Longrightarrow> p ! i = CHR ''['' \<Longrightarrow>
       index_of CHR '']'' (drop (Suc i) p) = Some k \<Longrightarrow>
       PatternMatcher_init_loop p (i + k + 2)
         (ts @ [PatternMatcherToken (CHR ''['' # take k (drop (Suc i) p) @ '']'')]) = Some y \<Longrightarrow>
       P (i + k + 2) (ts @ [PatternMatcherToken (CHR ''['' # take k (drop (Suc i) p) @ '']'')]) y \<Longrightarrow>
       P i ts y"
    and c_opened: "\<And>i ts y. i < length p \<Longrightarrow> p ! i = CHR ''['' \<Longrightarrow>
       index_of CHR '']'' (drop (Suc i) p) = None \<Longrightarrow>
       PatternMatcher_init_loop p 0 (ts @ [PatternMatcherToken []]) = Some y \<Longrightarrow>
       P 0 (ts @ [PatternMatcherToken []]) y \<Longrightarrow> P i ts y"
    and c_stars_error: "\<And>i ts. i < length p \<Longrightarrow> p ! i = CHR ''*'' \<Longrightarrow>
       2 \<le> length (takeWhile (\<lambda>x. x = CHR ''*'') (drop (Suc i) p)) \<Longrightarrow>
       P i ts (Inl (ValueError
         (p @ '' is not a valid wildcard pattern. (sequence of three or more *)'')))"
    and c_stars: "\<And>i ts n y. i < length p \<Longrightarrow> p ! i = CHR ''*'' \<Longrightarrow>
       n = Suc (length (takeWhile (\<lambda>x. x = CHR ''*'') (drop (Suc i) p))) \<Longrightarrow> n \<le> 2 \<Longrightarrow>
       PatternMatcher_init_loop p (i + n) (ts @ [PatternMatcherToken (replicate n CHR ''*'')]) = Some y \<Longrightarrow>
       P (i + n) (ts @ [PatternMatcherToken (replicate n CHR ''*'')]) y \<Longrightarrow> P i ts y"
  shows "P i ts y"
proof -
  have "p' = p \<longrightarrow> PatternMatcher_init_loop p i ts = Some y \<and> P i ts y"
    if "PatternMatcher_init_loop p' i ts = Some y" for p'
    using that
  proof (induct rule: PatternMatcher_init_loop.raw_induct [rotated, consumes 1, case_names step])
    case (step f q i ts y)
    show ?case
    proof
      assume q: "q = p"
      note IH = step(1) [of p, simplified]
      note body = step(2) [unfolded q]
      show "PatternMatcher_init_loop p i ts = Some y \<and> P i ts y"
      proof (cases "i < length p")
        case False
        with body have "y = Inr ts" by simp
        with False show ?thesis by (simp add: loop_done c_done)
      next
        case True
        consider (unmatched) "p ! i = CHR '']''"
          | (question) "p ! i = CHR ''?''"
          | (literal) "p ! i \<noteq> CHR ''[''" "p ! i \<noteq> CHR '']''" "p ! i \<noteq> CHR ''?''" "p ! i \<noteq> CHR ''*''"
          | (closed) k where "p ! i = CHR ''[''" "index_of CHR '']'' (drop (Suc i) p) = Some k"
          | (opened) "p ! i = CHR ''[''" "index_of CHR '']'' (drop (Suc i) p) = None"
          | (stars) "p ! i = CHR ''*''"
          by (cases "index_of CHR '']'' (drop (Suc i) p)") auto
        then show ?thesis
        proof cases
          case unmatched
          with True body have "y = Inl (ValueError (p @ '' is not a valid wildcard pattern. (unmatched ])''))"
            by simp
          with True unmatched show ?thesis by (simp add: loop_unmatched c_unmatched)
        next
          case question
          with True body have "f p (Suc i) (ts @ [PatternMatcherToken ''?'']) = Some y"
            by simp
          from IH [OF this] True question show ?thesis
            by (simp add: loop_question c_question)
        next
          case literal
          with True body have "f p (Suc i) (ts @ [PatternMatcherToken [p ! i]]) = Some y"
            by simp
          from IH [OF this] True literal show ?thesis
            by (simp add: loop_literal c_literal)
        next
          case closed
          note fs = class_closed_facts [OF True closed]
          from True closed(1) body have "f p (i + k + 2)
              (ts @ [PatternMatcherToken (CHR ''['' # take k (drop (Suc i) p) @ '']'')]) = Some y"
            by (simp only: if_True Let_def fs simp_thms)
          from IH [OF this] True closed show ?thesis
            using c_closed [OF True closed] by (simp add: loop_class_closed)
        next
          case opened
          note fs = class_open_facts [OF True opened]
          from True opened(1) body have "f p 0 (ts @ [PatternMatcherToken []]) = Some y"
            by (simp add: fs str_slice_def)
          from IH [OF this] True opened show ?thesis
            using c_opened [OF True opened] by (simp add: loop_class_open)
        next
          case stars
          note fs = stars_facts [OF True]
          define n where "n = Suc (length (takeWhile (\<lambda>x. x = CHR ''*'') (drop (Suc i) p)))"
          show ?thesis
          proof (cases "2 < n")
            case big: True
            with True stars body fs have
              "y = Inl (ValueError (p @ '' is not a valid wildcard pattern. (sequence of three or more *)''))"
              by (simp add: n_def)
            moreover from big have "2 \<le> length (takeWhile (\<lambda>x. x = CHR ''*'') (drop (Suc i) p))"
              by (simp add: n_def)
            ultimately show ?thesis
              using big c_stars_error [OF True stars] loop_stars [OF True stars, of ts]
              by (simp add: n_def Let_def)
          next
            case small: False
            with True stars body fs have
              "f p (i + n) (ts @ [PatternMatcherToken (replicate n CHR ''*'')]) = Some y"
              by (simp add: n_def)
            from IH [OF this] small show ?thesis
              using c_stars [OF True stars n_def] loop_stars [OF True stars, of ts]
              by (simp add: n_def Let_def)
          qed
        qed
      qed
    qed
  qed
  from this [OF run] show ?thesis by simp
qed

lemma drop_head: "i < length p \<Longrightarrow> drop i p = p ! i # drop (Suc i) p"
  by (simp add: Cons_nth_drop_Suc)

lemma star_run_nth:
  assumes "j < length (takeWhile (\<lambda>x. x = CHR ''*'') xs)"
  shows "xs ! j = CHR ''*''"
proof -
  from assms have "takeWhile (\<lambda>x. x = CHR ''*'') xs ! j = xs ! j"
    by (rule takeWhile_nth)
  moreover from assms have "takeWhile (\<lambda>x. x = CHR ''*'') xs ! j \<in> set (takeWhile (\<lambda>x. x = CHR ''*'') xs)"
    by simp
  then have "takeWhile (\<lambda>x. x = CHR ''*'') xs ! j = CHR ''*''"
    by (auto dest: set_takeWhileD)
  ultimately show ?thesis by simp
qed

text \<open>With an unclosed bracket at \<open>s\<close> the cursor never passes \<open>s\<close>: a run can only raise.\<close>

lemma loop_unclosed_no_tokens:
  assumes run: "PatternMatcher_init_loop p i ts = Some y"
    and s: "s < length p" "p ! s = CHR ''[''" "CHR '']'' \<notin> set (drop s p)"
  shows "i \<le> s \<Longrightarrow> isl y"
  using run
proof (induct rule: loop_run_induct)
  case (finished i ts)
  with s(1) show ?case by simp
next
  case (unmatched i ts)
  show ?case by simp
next
  case (question i ts y)
  from question(2) s(2) have "i \<noteq> s" by auto
  with question show ?case by simp
next
  case (literal i ts y)
  from literal(2) s(2) have "i \<noteq> s" by auto
  with literal show ?case by simp
next
  case (closed i ts k y)
  from index_of_Some [OF closed(3)] closed(1)
  have k: "Suc i + k < length p" "p ! (Suc i + k) = CHR '']''"
    by (auto simp: add.commute)
  have "Suc i + k < s"
  proof (rule ccontr)
    assume "\<not> Suc i + k < s"
    then have "s \<le> Suc i + k" by simp
    with k have "p ! (Suc i + k) \<in> set (drop s p)"
      by (auto simp: in_set_conv_nth intro!: exI [of _ "Suc i + k - s"])
    with k(2) s(3) show False by simp
  qed
  with closed show ?case by simp
next
  case (opened i ts y)
  then show ?case by simp
next
  case (stars_error i ts)
  show ?case by simp
next
  case (stars i ts n y)
  have "i + n \<le> s"
  proof (rule ccontr)
    assume "\<not> i + n \<le> s"
    with stars(2,7) s(2) have lt: "i < s" "s < i + n"
      by (auto simp: le_less)
    then have "s - Suc i < length (takeWhile (\<lambda>x. x = CHR ''*'') (drop (Suc i) p))"
      using stars(3) by simp
    from star_run_nth [OF this] lt s(1) have "p ! s = CHR ''*''"
      by simp
    with s(2) show False by simp
  qed
  with stars show ?case by simp
qed

text \<open>The tokens of a run that returns them can all be read by the token's \<open>match\<close>.\<close>

lemma loop_tokens_wf:
  assumes run: "PatternMatcher_init_loop p i ts = Some (Inr r)"
  shows "\<forall>t \<in> set ts. wf_token t \<Longrightarrow> \<forall>t \<in> set r. wf_token t"
proof -
  have "\<forall>t \<in> set ts. wf_token t \<Longrightarrow> y = Inr r \<Longrightarrow> \<forall>t \<in> set r. wf_token t"
    if "PatternMatcher_init_loop p i ts = Some y" for y
    using that
  proof (induct rule: loop_run_induct)
    case (opened i ts y)
    from loop_unclosed_no_tokens [OF opened(4) opened(1,2)] opened(3,7)
    show ?case by (simp add: index_of_None drop_head [OF opened(1)] opened(2))
  qed (simp_all add: wf_token_def)
  from this [OF run] show "\<forall>t \<in> set ts. wf_token t \<Longrightarrow> \<forall>t \<in> set r. wf_token t"
    by simp
qed


section \<open>Malformed patterns\<close>

lemma invalid_at:
  assumes "i < length p"
  shows "invalid_pattern (drop i p) =
     (if p ! i = CHR ''['' then
        (case index_of CHR '']'' (drop (Suc i) p) of
           None \<Rightarrow> False
         | Some k \<Rightarrow> invalid_pattern (drop (i + k + 2) p))
      else if p ! i = CHR '']'' then True
      else if p ! i = CHR ''*'' then
        (if 2 \<le> length (takeWhile (\<lambda>x. x = CHR ''*'') (drop (Suc i) p)) then True
         else invalid_pattern
                (drop (i + Suc (length (takeWhile (\<lambda>x. x = CHR ''*'') (drop (Suc i) p)))) p))
      else invalid_pattern (drop (Suc i) p))"
proof -
  have dw: "dropWhile (\<lambda>x. x = CHR ''*'') (drop (Suc i) p) =
      drop (i + Suc (length (takeWhile (\<lambda>x. x = CHR ''*'') (drop (Suc i) p)))) p"
    by (simp add: dropWhile_eq_drop add.commute)
  have dk: "drop (Suc k) (drop (Suc i) p) = drop (i + k + 2) p" for k
    by (simp add: add.commute)
  show ?thesis
    by (subst drop_head [OF assms]) (simp add: dw dk split: option.split del: drop_drop)
qed

text \<open>A pattern that is not malformed never raises, from any cursor position reached.\<close>

lemma loop_valid_no_error:
  assumes run: "PatternMatcher_init_loop p i ts = Some y"
    and ok: "\<not> invalid_pattern p"
  shows "\<not> invalid_pattern (drop i p) \<Longrightarrow> \<not> isl y"
  using run
proof (induct rule: loop_run_induct)
  case (opened i ts y)
  with ok show ?case by simp
qed (simp_all add: invalid_at)

text \<open>A malformed pattern raises \<open>ValueError\<close>.\<close>

lemma loop_invalid_raises:
  "invalid_pattern (drop i p) \<Longrightarrow>
   \<exists>msg. PatternMatcher_init_loop p i ts = Some (Inl (ValueError msg))"
proof (induction "length p - i" arbitrary: i ts rule: less_induct)
  case less
  have i: "i < length p"
  proof (rule ccontr)
    assume "\<not> i < length p"
    with less.prems show False by simp
  qed
  note inv = less.prems [unfolded invalid_at [OF i]]
  consider (unmatched) "p ! i = CHR '']''"
    | (question) "p ! i = CHR ''?''"
    | (literal) "p ! i \<noteq> CHR ''[''" "p ! i \<noteq> CHR '']''" "p ! i \<noteq> CHR ''?''" "p ! i \<noteq> CHR ''*''"
    | (closed) k where "p ! i = CHR ''[''" "index_of CHR '']'' (drop (Suc i) p) = Some k"
    | (opened) "p ! i = CHR ''[''" "index_of CHR '']'' (drop (Suc i) p) = None"
    | (stars) "p ! i = CHR ''*''"
    by (cases "index_of CHR '']'' (drop (Suc i) p)") auto
  then show ?case
  proof cases
    case unmatched
    with i show ?thesis by (simp add: loop_unmatched)
  next
    case question
    with inv have "invalid_pattern (drop (Suc i) p)" by simp
    from less.hyps [OF _ this] i question show ?thesis
      by (simp add: loop_question)
  next
    case literal
    with inv have "invalid_pattern (drop (Suc i) p)" by simp
    from less.hyps [OF _ this] i literal show ?thesis
      by (simp add: loop_literal)
  next
    case closed
    with inv have "invalid_pattern (drop (i + k + 2) p)" by simp
    from less.hyps [OF _ this] i show ?thesis
      by (simp add: loop_class_closed [OF i closed])
  next
    case opened
    with inv show ?thesis by simp
  next
    case stars
    show ?thesis
    proof (cases "2 \<le> length (takeWhile (\<lambda>x. x = CHR ''*'') (drop (Suc i) p))")
      case True
      then show ?thesis by (simp add: loop_stars [OF i stars] Let_def)
    next
      case False
      with inv stars have "invalid_pattern
          (drop (i + Suc (length (takeWhile (\<lambda>x. x = CHR ''*'') (drop (Suc i) p)))) p)"
        by simp
      from less.hyps [OF _ this] i False show ?thesis
        by (simp add: loop_stars [OF i stars] Let_def)
    qed
  qed
qed

section \<open>The tokens of a compiled pattern\<close>




section \<open>The depth of the recursion in \<open>_match\<close>\<close>

text \<open>A result that is not an error stays the same when more frames are free.\<close>

lemma match_mono:
  "PatternMatcher_match self f ts nm = Inr b \<Longrightarrow> f \<le> f' \<Longrightarrow>
   PatternMatcher_match self f' ts nm = Inr b"
proof (induction nm arbitrary: ts f f' b)
  case Nil
  then obtain g g' where g: "f = Suc g" "f' = Suc g'"
    by (cases f; cases f') auto
  with Nil show ?case by (cases ts) auto
next
  case (Cons c rest)
  from Cons.prems obtain g g' where g: "f = Suc g" "f' = Suc g'" "g \<le> g'"
    by (cases f; cases f') auto
  show ?case
  proof (cases ts)
    case Nil
    with Cons.prems g show ?thesis by auto
  next
    case ts: (Cons t ts')
    from Cons.prems(1) g ts have g0: "g \<noteq> 0" by (auto split: if_splits)
    with g have g0': "g' \<noteq> 0" by auto
    from Cons.prems(1) g ts g0 obtain n where n: "token_match t c (case_sensitive self) = Inr n"
      by (auto split: sum.splits)
    show ?thesis
    proof (cases "n = 0")
      case True
      with Cons.prems(1) n g ts g0 g0' show ?thesis by auto
    next
      case n0: False
      show ?thesis
      proof (cases "n = 1")
        case True
        with Cons.prems(1) n g ts g0 have "PatternMatcher_match self g ts' rest = Inr b" by auto
        from Cons.IH [OF this g(3)] True n g ts g0' show ?thesis by auto
      next
        case n1: False
        from Cons.prems(1) n g ts g0 n0 n1 obtain b1
          where b1: "PatternMatcher_match self g ts' rest = Inr b1"
          by (auto split: sum.splits)
        note b1' = Cons.IH [OF b1 g(3)]
        show ?thesis
        proof (cases b1)
          case True
          with Cons.prems(1) n g ts g0 g0' n0 n1 b1 b1' show ?thesis by auto
        next
          case False
          with Cons.prems(1) n g ts g0 n0 n1 b1
          have "PatternMatcher_match self g (t # ts') rest = Inr b" by auto
          from Cons.IH [OF this g(3)] False n g ts g0' n0 n1 b1' show ?thesis by auto
        qed
      qed
    qed
  qed
qed




section \<open>The constructor and the call of a matcher\<close>


lemma init_error:
  "PatternMatcher_init p cs ap = Some (Inl e) \<longleftrightarrow> PatternMatcher_init_loop p 0 [] = Some (Inl e)"
  by (auto simp: PatternMatcher_init_def split: option.splits sum.splits)

lemma init_none:
  "PatternMatcher_init p cs ap = None \<longleftrightarrow> PatternMatcher_init_loop p 0 [] = None"
  by (auto simp: PatternMatcher_init_def split: option.splits sum.splits)





lemma call_mono:
  assumes "PatternMatcher_call m f nm = Inr b" and "f \<le> f'"
  shows "PatternMatcher_call m f' nm = Inr b"
proof -
  from assms obtain g g' where g: "f = Suc g" "f' = Suc g'" "g \<le> g'"
    by (cases f; cases f') (auto simp: PatternMatcher_call_def)
  from assms(1) g(1) have "PatternMatcher_match m g (tokens m) nm = Inr b"
    by (simp add: PatternMatcher_call_def)
  from match_mono [OF this g(3)] g(2) show ?thesis
    by (simp add: PatternMatcher_call_def)
qed

section \<open>The cache keeps compiled matchers only\<close>

lemma getitem_hit:
  assumes "cache_ok c" and "LRUCache_getitem c k = Some (v, c')"
  shows "PatternMatcher_init (fst k) (fst (snd k)) (snd (snd k)) = Some (Inr v)" and "cache_ok c'"
proof -
  from assms(2) have v: "map_of (entries c) k = Some v"
    and c': "c' = c\<lparr>entries := filter (\<lambda>e. fst e \<noteq> k) (entries c) @ [(k, v)]\<rparr>"
    by (auto simp: LRUCache_getitem_def split: option.splits)
  from v have "(k, v) \<in> set (entries c)" by (rule map_of_SomeD)
  with assms(1) show i: "PatternMatcher_init (fst k) (fst (snd k)) (snd (snd k)) = Some (Inr v)"
    by (auto simp: cache_ok_def)
  from assms(1) i show "cache_ok c'"
    by (auto simp: cache_ok_def c')
qed


lemma cache_ok_initial: "cache_ok PATTERN_CACHE"
  by (simp add: cache_ok_def PATTERN_CACHE_def)

text \<open>
  On a cache that satisfies the invariant, a query returns what a fresh matcher returns,
  and the invariant holds again afterwards.
\<close>

lemma match_outcome:
  assumes "cache_ok c"
  shows "map_option fst (match c frames p nm ap) =
           (case PatternMatcher_init p True ap of
              None \<Rightarrow> None
            | Some (Inl e) \<Rightarrow> Some (Inl e)
            | Some (Inr m) \<Rightarrow> Some (PatternMatcher_call m frames nm))"
proof (cases "LRUCache_getitem c (p, True, ap)")
  case None
  then show ?thesis
    by (simp add: match_def split: option.splits sum.splits)
next
  case (Some r)
  obtain v c' where r: "r = (v, c')" by (cases r)
  from getitem_hit(1) [OF assms Some [unfolded r]] Some r show ?thesis
    by (simp add: match_def)
qed

lemma imatch_outcome:
  assumes "cache_ok c"
  shows "map_option fst (imatch c frames p nm ap) =
           (case PatternMatcher_init p False ap of
              None \<Rightarrow> None
            | Some (Inl e) \<Rightarrow> Some (Inl e)
            | Some (Inr m) \<Rightarrow> Some (PatternMatcher_call m frames nm))"
proof (cases "LRUCache_getitem c (p, False, ap)")
  case None
  then show ?thesis
    by (simp add: imatch_def split: option.splits sum.splits)
next
  case (Some r)
  obtain v c' where r: "r = (v, c')" by (cases r)
  from getitem_hit(1) [OF assms Some [unfolded r]] Some r show ?thesis
    by (simp add: imatch_def)
qed



text \<open>A boolean outcome does not depend on the cache, and stays when more frames are free.\<close>

lemma match_lift:
  assumes "cache_ok c" and "cache_ok c'"
    and "map_option fst (match c f p nm ap) = Some (Inr b)" and "f \<le> f'"
  shows "map_option fst (match c' f' p nm ap) = Some (Inr b)"
proof -
  from assms(3) obtain m where m: "PatternMatcher_init p True ap = Some (Inr m)"
    and r: "PatternMatcher_call m f nm = Inr b"
    by (auto simp: match_outcome [OF assms(1)] split: option.splits sum.splits)
  from call_mono [OF r assms(4)] m show ?thesis
    by (simp add: match_outcome [OF assms(2)])
qed

lemma imatch_lift:
  assumes "cache_ok c" and "cache_ok c'"
    and "map_option fst (imatch c f p nm ap) = Some (Inr b)" and "f \<le> f'"
  shows "map_option fst (imatch c' f' p nm ap) = Some (Inr b)"
proof -
  from assms(3) obtain m where m: "PatternMatcher_init p False ap = Some (Inr m)"
    and r: "PatternMatcher_call m f nm = Inr b"
    by (auto simp: imatch_outcome [OF assms(1)] split: option.splits sum.splits)
  from call_mono [OF r assms(4)] m show ?thesis
    by (simp add: imatch_outcome [OF assms(2)])
qed

lemma loop_unclosed_outcome:
  assumes s: "s < length p" "p ! s = CHR ''[''" "CHR '']'' \<notin> set (drop s p)"
  shows "invalid_pattern p \<Longrightarrow> \<exists>msg. PatternMatcher_init_loop p 0 [] = Some (Inl (ValueError msg))"
    and "\<not> invalid_pattern p \<Longrightarrow> PatternMatcher_init_loop p 0 [] = None"
proof -
  show "\<exists>msg. PatternMatcher_init_loop p 0 [] = Some (Inl (ValueError msg))" if "invalid_pattern p"
    using loop_invalid_raises [of 0 p "[]"] that by simp
  show "PatternMatcher_init_loop p 0 [] = None" if ok: "\<not> invalid_pattern p"
  proof (cases "PatternMatcher_init_loop p 0 []")
    case None
    then show ?thesis .
  next
    case (Some y)
    from loop_unclosed_no_tokens [OF Some s] have "isl y" by simp
    moreover from loop_valid_no_error [OF Some ok] ok have "\<not> isl y" by simp
    ultimately show ?thesis by simp
  qed
qed



section \<open>Properties of the backtracking match\<close>

lemma match_all_consumed:
  "accept_prefixes self \<Longrightarrow> PatternMatcher_match self (Suc f) ts [] = Inr True"
  by (cases ts) simp_all

lemma star_span:
  "PatternMatcher_match self f (PatternMatcherToken ''*'' # ts) nm = Inr True \<Longrightarrow>
   (nm = [] \<and> accept_prefixes self) \<or>
   (\<exists>k. 1 \<le> k \<and> k \<le> length nm \<and> CHR ''/'' \<notin> set (take k nm) \<and>
        PatternMatcher_match self (f - k) ts (drop k nm) = Inr True)"
proof (induction nm arbitrary: f)
  case Nil
  then show ?case by (cases f) simp_all
next
  case (Cons c cs)
  from Cons.prems obtain g where f: "f = Suc g" and g: "g \<noteq> 0"
    by (cases f) (auto split: if_splits)
  have tm: "token_match (PatternMatcherToken ''*'') c (case_sensitive self) =
      Inr (if c \<noteq> CHR ''/'' then 2 else 0)"
    by (simp add: token_match_def)
  from Cons.prems tm f g have c: "c \<noteq> CHR ''/''"
    by (auto split: if_splits)
  show ?case
  proof (cases "PatternMatcher_match self g ts cs = Inr True")
    case True
    with c f have "1 \<le> (1::nat) \<and> 1 \<le> length (c # cs) \<and> CHR ''/'' \<notin> set (take 1 (c # cs)) \<and>
        PatternMatcher_match self (f - 1) ts (drop 1 (c # cs)) = Inr True"
      by simp
    then show ?thesis by blast
  next
    case False
    with Cons.prems tm c f g
    have stay: "PatternMatcher_match self g (PatternMatcherToken ''*'' # ts) cs = Inr True"
      by (auto split: sum.splits if_splits)
    from Cons.IH [OF stay] show ?thesis
    proof
      assume "cs = [] \<and> accept_prefixes self"
      with match_all_consumed [of self "g - 1" ts] False g show ?thesis by simp
    next
      assume "\<exists>k. 1 \<le> k \<and> k \<le> length cs \<and> CHR ''/'' \<notin> set (take k cs) \<and>
          PatternMatcher_match self (g - k) ts (drop k cs) = Inr True"
      then obtain k where k: "1 \<le> k" "k \<le> length cs" "CHR ''/'' \<notin> set (take k cs)"
        "PatternMatcher_match self (g - k) ts (drop k cs) = Inr True"
        by blast
      with c f have "1 \<le> Suc k \<and> Suc k \<le> length (c # cs) \<and> CHR ''/'' \<notin> set (take (Suc k) (c # cs)) \<and>
          PatternMatcher_match self (f - Suc k) ts (drop (Suc k) (c # cs)) = Inr True"
        by simp
      then show ?thesis by blast
    qed
  qed
qed


subsection \<open>Literal tokens\<close>




subsection \<open>Patterns without star tokens\<close>



subsection \<open>Bracket expressions\<close>






subsection \<open>Prefix mode\<close>





section \<open>Facts used by the claims\<close>











section \<open>The claims\<close>

text \<open>
  C1. The claim reads: a star token matches zero or more characters, so that
  \<open>match(s + "*", s)\<close> and \<open>match("*" + s, s)\<close> hold. In \<open>_match\<close> both branches of an
  open-ended token continue on \<open>text[1:]\<close>, so a star always takes at least one character
  of a non-empty text, and a star left over at the end of the text fails without prefix
  mode: both queries are false for \<open>s = "a"\<close> whenever three or more frames are free, and
  true at no depth.
\<close>

theorem C1_star_needs_a_character:
  "(3 \<le> frames \<longrightarrow>
      map_option fst (match PATTERN_CACHE frames ''a*'' ''a'' False) = Some (Inr False) \<and>
      map_option fst (match PATTERN_CACHE frames ''*a'' ''a'' False) = Some (Inr False) \<and>
      map_option fst (match PATTERN_CACHE frames ''*'' [] False) = Some (Inr False)) \<and>
   map_option fst (match PATTERN_CACHE frames ''a*'' ''a'' False) \<noteq> Some (Inr True) \<and>
   map_option fst (match PATTERN_CACHE frames ''*a'' ''a'' False) \<noteq> Some (Inr True) \<and>
   map_option fst (match PATTERN_CACHE frames ''*'' [] False) \<noteq> Some (Inr True)"
proof -
  note ok = cache_ok_initial
  have a: "map_option fst (match PATTERN_CACHE 3 ''a*'' ''a'' False) = Some (Inr False)"
    and b: "map_option fst (match PATTERN_CACHE 3 ''*a'' ''a'' False) = Some (Inr False)"
    and c: "map_option fst (match PATTERN_CACHE 3 ''*'' [] False) = Some (Inr False)"
    by code_simp+
  have never: "map_option fst (match PATTERN_CACHE frames p nm False) \<noteq> Some (Inr True)"
    if "map_option fst (match PATTERN_CACHE 3 p nm False) = Some (Inr False)" for p nm
  proof
    assume "map_option fst (match PATTERN_CACHE frames p nm False) = Some (Inr True)"
    from match_lift [OF ok ok this, of "max frames 3"] match_lift [OF ok ok that, of "max frames 3"]
    show False by simp
  qed
  from match_lift [OF ok ok a, of frames] match_lift [OF ok ok b, of frames]
    match_lift [OF ok ok c, of frames] never [OF a] never [OF b] never [OF c]
  show ?thesis by blast
qed

theorem C1_star_witness:
  "map_option fst (match PATTERN_CACHE 1000 ''a*'' ''a'' False) = Some (Inr False) \<and>
   map_option fst (match PATTERN_CACHE 1000 ''*a'' ''a'' False) = Some (Inr False) \<and>
   map_option fst (match PATTERN_CACHE 1000 ''*'' [] False) = Some (Inr False)"
  using C1_star_needs_a_character [of 1000] by simp

text \<open>
  C2. The claim reads: a pattern with a \<open>[\<close> that no \<open>]\<close> follows compiles, without
  raising, to a class token that matches nothing. In \<open>__init__\<close> the failed \<open>find\<close> returns
  \<open>-1\<close>, the cursor becomes 0, an empty token is appended and the scan starts again: the
  constructor raises when the pattern is malformed before the bracket, and never returns
  otherwise.
\<close>

theorem C2_unclosed_bracket_never_compiles:
  assumes "s < length p" and "p ! s = CHR ''[''" and "CHR '']'' \<notin> set (drop s p)"
  shows "(invalid_pattern p \<longrightarrow> (\<exists>msg. PatternMatcher_init p cs ap = Some (Inl (ValueError msg)))) \<and>
         (\<not> invalid_pattern p \<longrightarrow> PatternMatcher_init p cs ap = None)"
  using loop_unclosed_outcome [OF assms] by (simp add: init_error init_none)

theorem C2_unclosed_bracket_witness:
  "(0::nat) < length ''['' \<and> ''['' ! 0 = CHR ''['' \<and> CHR '']'' \<notin> set (drop 0 ''['') \<and>
   \<not> invalid_pattern ''['' \<and> PatternMatcher_init ''['' True False = None \<and>
   (1::nat) < length '']['' \<and> '']['' ! 1 = CHR ''['' \<and> CHR '']'' \<notin> set (drop 1 '']['') \<and>
   invalid_pattern '']['' \<and>
   (\<exists>msg. PatternMatcher_init '']['' True False = Some (Inl (ValueError msg)))"
  using C2_unclosed_bracket_never_compiles [of 0 "''[''" True False]
    C2_unclosed_bracket_never_compiles [of 1 "'']['' " True False]
  by simp




text \<open>
  C4. The claim reads: without case sensitivity a class is compared after case
  normalisation. \<open>_PatternMatcherToken.match\<close> returns from the class branch before it
  looks at \<open>case_sensitive\<close>, so \<open>imatch\<close> folds the case of literals only: the class
  \<open>[a]\<close> does not match \<open>A\<close>, while the literal \<open>a\<close> does.
\<close>

theorem C4_class_ignores_case_flag:
  "(3 \<le> frames \<longrightarrow>
      map_option fst (imatch PATTERN_CACHE frames ''[a]'' ''A'' False) = Some (Inr False) \<and>
      map_option fst (imatch PATTERN_CACHE frames ''a'' ''A'' False) = Some (Inr True)) \<and>
   (10 \<le> frames \<longrightarrow>
      map_option fst (imatch PATTERN_CACHE frames ''file.py[CO]'' ''file.pyc'' False) = Some (Inr False)) \<and>
   map_option fst (imatch PATTERN_CACHE frames ''[a]'' ''A'' False) \<noteq> Some (Inr True) \<and>
   map_option fst (imatch PATTERN_CACHE frames ''file.py[CO]'' ''file.pyc'' False) \<noteq> Some (Inr True)"
proof -
  note ok = cache_ok_initial
  have a: "map_option fst (imatch PATTERN_CACHE 3 ''[a]'' ''A'' False) = Some (Inr False)"
    and b: "map_option fst (imatch PATTERN_CACHE 3 ''a'' ''A'' False) = Some (Inr True)"
    and c: "map_option fst (imatch PATTERN_CACHE 10 ''file.py[CO]'' ''file.pyc'' False) = Some (Inr False)"
    by code_simp+
  have never: "map_option fst (imatch PATTERN_CACHE frames p nm False) \<noteq> Some (Inr True)"
    if "map_option fst (imatch PATTERN_CACHE k p nm False) = Some (Inr False)" for p nm k
  proof
    assume "map_option fst (imatch PATTERN_CACHE frames p nm False) = Some (Inr True)"
    from imatch_lift [OF ok ok this, of "max frames k"] imatch_lift [OF ok ok that, of "max frames k"]
    show False by simp
  qed
  from imatch_lift [OF ok ok a, of frames] imatch_lift [OF ok ok b, of frames]
    imatch_lift [OF ok ok c, of frames] never [OF a] never [OF c]
  show ?thesis by blast
qed

theorem C4_class_witness:
  "map_option fst (imatch PATTERN_CACHE 1000 ''[a]'' ''A'' False) = Some (Inr False) \<and>
   map_option fst (imatch PATTERN_CACHE 1000 ''a'' ''A'' False) = Some (Inr True) \<and>
   map_option fst (imatch PATTERN_CACHE 1000 ''file.py[CO]'' ''file.pyc'' False) = Some (Inr False)"
  using C4_class_ignores_case_flag [of 1000] by simp




text \<open>
  C6. A \<open>*\<close> token never takes a \<open>/\<close>: when a token list that starts with \<open>*\<close> matches a
  name, the star has taken a non-empty span without \<open>/\<close> and the remaining tokens match the
  rest, one frame deeper for every character of the span (or the name is empty, in prefix
  mode). A \<open>**\<close> token may take a \<open>/\<close>: \<open>match("foo*.jpg", "foo/a.jpg")\<close> is false,
  \<open>match("foo**.jpg", "foo/a.jpg")\<close> and \<open>match("**", "foo/a.jpg")\<close> are true.
\<close>

theorem C6_star_stops_at_separator:
  "(PatternMatcher_match self f (PatternMatcherToken ''*'' # ts) nm = Inr True \<longrightarrow>
      (nm = [] \<and> accept_prefixes self) \<or>
      (\<exists>k. 1 \<le> k \<and> k \<le> length nm \<and> CHR ''/'' \<notin> set (take k nm) \<and>
           PatternMatcher_match self (f - k) ts (drop k nm) = Inr True)) \<and>
   (cache_ok c \<and> 11 \<le> frames \<longrightarrow>
      map_option fst (match c frames ''foo*.jpg'' ''foo/a.jpg'' False) = Some (Inr False) \<and>
      map_option fst (match c frames ''foo**.jpg'' ''foo/a.jpg'' False) = Some (Inr True) \<and>
      map_option fst (match c frames ''**'' ''foo/a.jpg'' False) = Some (Inr True))"
proof (intro conjI impI)
  assume "PatternMatcher_match self f (PatternMatcherToken ''*'' # ts) nm = Inr True"
  then show "(nm = [] \<and> accept_prefixes self) \<or>
      (\<exists>k. 1 \<le> k \<and> k \<le> length nm \<and> CHR ''/'' \<notin> set (take k nm) \<and>
           PatternMatcher_match self (f - k) ts (drop k nm) = Inr True)"
    by (rule star_span)
next
  assume a: "cache_ok c \<and> 11 \<le> frames"
  have "map_option fst (match PATTERN_CACHE 11 ''foo*.jpg'' ''foo/a.jpg'' False) = Some (Inr False)"
    by code_simp
  from match_lift [OF cache_ok_initial _ this, of c frames] a
  show "map_option fst (match c frames ''foo*.jpg'' ''foo/a.jpg'' False) = Some (Inr False)"
    by simp
next
  assume a: "cache_ok c \<and> 11 \<le> frames"
  have "map_option fst (match PATTERN_CACHE 11 ''foo**.jpg'' ''foo/a.jpg'' False) = Some (Inr True)"
    by code_simp
  from match_lift [OF cache_ok_initial _ this, of c frames] a
  show "map_option fst (match c frames ''foo**.jpg'' ''foo/a.jpg'' False) = Some (Inr True)"
    by simp
next
  assume a: "cache_ok c \<and> 11 \<le> frames"
  have "map_option fst (match PATTERN_CACHE 11 ''**'' ''foo/a.jpg'' False) = Some (Inr True)"
    by code_simp
  from match_lift [OF cache_ok_initial _ this, of c frames] a
  show "map_option fst (match c frames ''**'' ''foo/a.jpg'' False) = Some (Inr True)"
    by simp
qed

theorem C6_star_witness:
  "PatternMatcher_match \<lparr>case_sensitive = True, accept_prefixes = False, tokens = []\<rparr> 10
     [PatternMatcherToken ''*'', PatternMatcherToken ''/'', PatternMatcherToken ''b''] ''a/b'' = Inr True \<and>
   (\<exists>k. 1 \<le> k \<and> k \<le> length ''a/b'' \<and> CHR ''/'' \<notin> set (take k ''a/b'') \<and>
      PatternMatcher_match \<lparr>case_sensitive = True, accept_prefixes = False, tokens = []\<rparr> (10 - k)
        [PatternMatcherToken ''/'', PatternMatcherToken ''b''] (drop k ''a/b'') = Inr True) \<and>
   cache_ok PATTERN_CACHE \<and>
   map_option fst (match PATTERN_CACHE 1000 ''foo*.jpg'' ''foo/a.jpg'' False) = Some (Inr False) \<and>
   map_option fst (match PATTERN_CACHE 1000 ''foo**.jpg'' ''foo/a.jpg'' False) = Some (Inr True) \<and>
   map_option fst (match PATTERN_CACHE 1000 ''**'' ''foo/a.jpg'' False) = Some (Inr True)"
proof -
  have m: "PatternMatcher_match \<lparr>case_sensitive = True, accept_prefixes = False, tokens = []\<rparr> 10
     [PatternMatcherToken ''*'', PatternMatcherToken ''/'', PatternMatcherToken ''b''] ''a/b'' = Inr True"
    by code_simp
  from C6_star_stops_at_separator [of "\<lparr>case_sensitive = True, accept_prefixes = False, tokens = []\<rparr>"
      10 "[PatternMatcherToken ''/'', PatternMatcherToken ''b'']" "''a/b''" PATTERN_CACHE 1000]
    m cache_ok_initial
  show ?thesis by simp
qed







text \<open>
  C9. When the constructor raises on a pattern, a query that misses the cache returns that
  error and the cache as it was, so nothing is stored under the failing key and the same
  query raises again; on a cache that holds compiled matchers only, the failing key is
  always a miss.
\<close>

theorem C9_compile_error_leaves_cache:
  assumes "PatternMatcher_init p cs ap = Some (Inl e)"
  shows "(LRUCache_getitem c (p, cs, ap) = None \<longrightarrow>
            (if cs then match else imatch) c frames p nm ap = Some (Inl e, c)) \<and>
         (cache_ok c \<longrightarrow> LRUCache_getitem c (p, cs, ap) = None)"
proof (intro conjI impI)
  assume "LRUCache_getitem c (p, cs, ap) = None"
  with assms show "(if cs then match else imatch) c frames p nm ap = Some (Inl e, c)"
    by (cases cs) (simp_all add: match_def imatch_def)
next
  assume ok: "cache_ok c"
  show "LRUCache_getitem c (p, cs, ap) = None"
  proof (cases "LRUCache_getitem c (p, cs, ap)")
    case None
    then show ?thesis .
  next
    case (Some h)
    obtain v c1 where h: "h = (v, c1)" by (cases h)
    from getitem_hit(1) [OF ok Some [unfolded h]] assms show ?thesis by simp
  qed
qed

theorem C9_compile_error_witness:
  "(\<exists>e. PatternMatcher_init ''a]'' True False = Some (Inl e) \<and>
     LRUCache_getitem PATTERN_CACHE (''a]'', True, False) = None \<and>
     cache_ok PATTERN_CACHE \<and>
     match PATTERN_CACHE 1000 ''a]'' ''a'' False = Some (Inl e, PATTERN_CACHE))"
proof -
  have c: "PatternMatcher_init ''a]'' True False =
      Some (Inl (ValueError ''a] is not a valid wildcard pattern. (unmatched ])''))"
    by code_simp
  from C9_compile_error_leaves_cache [OF c, of PATTERN_CACHE 1000 "''a''"] cache_ok_initial c
  show ?thesis by simp
qed



end
